theory Spec2Isabelle
  imports Main "HOL-Library.Sublist"
begin

section \<open>JavaScript string primitives used by server.js\<close>

text \<open>
  A chunk of output is a \<open>string\<close>. The built-in methods that the stdout callback of
  server.js calls are written out here with the behaviour the language standard gives
  them: \<open>indexOf\<close>, \<open>split\<close> with a string separator, indexing an array (which gives
  \<open>undefined\<close> out of range, here \<open>None\<close>), \<open>trim\<close>, \<open>substring\<close> and \<open>parseInt\<close>
  without a radix. Calling a method on \<open>undefined\<close> throws a TypeError. Characters are
  the 8-bit ones of \<open>string\<close>; code units above 255 are outside the model.
\<close>

datatype js_error = TypeError

text \<open>Position of the first occurrence of \<open>sub\<close> in a string, if there is one.\<close>

fun index_of :: "string \<Rightarrow> string \<Rightarrow> nat option" where
  "index_of sub [] = (if sub = [] then Some 0 else None)"
| "index_of sub (c # cs) =
     (if prefix sub (c # cs) then Some 0 else map_option Suc (index_of sub cs))"

text \<open>\<open>s.indexOf(sub)\<close>: the position, or \<open>-1\<close> when \<open>sub\<close> does not occur.\<close>

definition indexOf :: "string \<Rightarrow> string \<Rightarrow> int" where
  "indexOf s sub = (case index_of sub s of None \<Rightarrow> - 1 | Some i \<Rightarrow> int i)"

lemma index_of_bound:
  "index_of sub s = Some i \<Longrightarrow> i + length sub \<le> length s"
proof (induction s arbitrary: i)
  case Nil
  then show ?case by (simp split: if_splits)
next
  case (Cons c cs)
  show ?case
  proof (cases "prefix sub (c # cs)")
    case True
    with Cons.prems have "i = 0" by simp
    moreover from True have "length sub \<le> length (c # cs)" by (rule prefix_length_le)
    ultimately show ?thesis by simp
  next
    case False
    with Cons.prems obtain j where "index_of sub cs = Some j" "i = Suc j" by auto
    with Cons.IH show ?thesis by fastforce
  qed
qed

text \<open>
  \<open>s.split(sep)\<close>: the pieces of \<open>s\<close> between the occurrences of \<open>sep\<close>, found from the
  left; with the empty separator, the characters of \<open>s\<close>.
\<close>

function split_js :: "string \<Rightarrow> string \<Rightarrow> string list" where
  "split_js s sep =
     (if sep = [] then map (\<lambda>c. [c]) s
      else (case index_of sep s of
              None \<Rightarrow> [s]
            | Some i \<Rightarrow> take i s # split_js (drop (i + length sep) s) sep))"
  by pat_completeness auto
termination
proof (relation "measure (\<lambda>(s, sep). length s)")
  show "wf (measure (\<lambda>(s, sep). length s))" by simp
next
  fix s sep :: string and i :: nat
  assume "sep \<noteq> []" and "index_of sep s = Some i"
  then have "i + length sep \<le> length s" and "0 < length sep"
    by (simp_all add: index_of_bound)
  then have "length s - (i + length sep) < length s"
    by arith
  then show "((drop (i + length sep) s, sep), (s, sep)) \<in> measure (\<lambda>(s, sep). length s)"
    by simp
qed

declare split_js.simps [simp del]

text \<open>\<open>xs[i]\<close> on an array: \<open>undefined\<close> (here \<open>None\<close>) when \<open>i\<close> is out of range.\<close>

definition nth_js :: "'a list \<Rightarrow> nat \<Rightarrow> 'a option" where
  "nth_js xs i = (if i < length xs then Some (xs ! i) else None)"

text \<open>
  White space and line terminators of the language that fit in one 8-bit character:
  TAB, LF, VT, FF, CR, SP and NBSP.
\<close>

definition js_whitespace :: "char \<Rightarrow> bool" where
  "js_whitespace c \<longleftrightarrow>
     c \<in> set [CHR 0x09, CHR 0x0A, CHR 0x0B, CHR 0x0C, CHR 0x0D, CHR 0x20, CHR 0xA0]"

definition trim :: "string \<Rightarrow> string" where
  "trim s = rev (dropWhile js_whitespace (rev (dropWhile js_whitespace s)))"

text \<open>
  \<open>s.substring(start, end)\<close> for non-negative arguments: both are clamped to the length
  and swapped when out of order.
\<close>

definition substring :: "string \<Rightarrow> nat \<Rightarrow> nat \<Rightarrow> string" where
  "substring s start end =
     (let a = min start (length s); b = min end (length s)
      in take (max a b - min a b) (drop (min a b) s))"

text \<open>
  A number as \<open>parseInt\<close> returns it: NaN, or the integer the digits denote. (A number of
  the language holds every integer of magnitude up to \<open>2 ^ 53\<close> exactly; the statements
  below that name a particular integer stay within that range. The two zeros are not
  told apart.)
\<close>

datatype jsnum = NaN | Num int

text \<open>The value of a character as a digit: 0-9, then a-z or A-Z as 10-35.\<close>

definition digit_value :: "char \<Rightarrow> nat option" where
  "digit_value c =
     (case index_of [c] ''0123456789abcdefghijklmnopqrstuvwxyz'' of
        Some i \<Rightarrow> Some i
      | None \<Rightarrow> map_option (\<lambda>i. 10 + i) (index_of [c] ''ABCDEFGHIJKLMNOPQRSTUVWXYZ''))"

definition is_radix_digit :: "nat \<Rightarrow> char \<Rightarrow> bool" where
  "is_radix_digit R c = (case digit_value c of None \<Rightarrow> False | Some v \<Rightarrow> v < R)"

definition digits_value :: "nat \<Rightarrow> string \<Rightarrow> nat" where
  "digits_value R Z =
     foldl (\<lambda>acc c. case digit_value c of None \<Rightarrow> acc | Some v \<Rightarrow> acc * R + v) 0 Z"

text \<open>
  \<open>parseInt(s)\<close> with no radix: skip leading white space, read an optional sign, switch
  to radix 16 after a prefix \<open>0x\<close> or \<open>0X\<close>, take the longest run of digits of the radix;
  NaN when that run is empty. \<open>parse_magnitude\<close> is the part after the sign.
\<close>

definition parse_magnitude :: "string \<Rightarrow> nat option" where
  "parse_magnitude S1 =
     (let hex = (prefix ''0x'' S1 \<or> prefix ''0X'' S1);
          R = (if hex then 16 else 10 :: nat);
          S2 = (if hex then drop 2 S1 else S1);
          Z = takeWhile (is_radix_digit R) S2
      in if Z = [] then None else Some (digits_value R Z))"

definition parseInt :: "string \<Rightarrow> jsnum" where
  "parseInt s =
     (let S = dropWhile js_whitespace s;
          sign = (if prefix ''-'' S then - 1 else 1 :: int);
          S1 = (if prefix ''-'' S \<or> prefix ''+'' S then drop 1 S else S)
      in case parse_magnitude S1 of None \<Rightarrow> NaN | Some m \<Rightarrow> Num (sign * int m))"

section \<open>The stdout callback of server.js\<close>

record resolution =
  w :: jsnum
  h :: jsnum

text \<open>
  The variables the callback shares with the request handlers: \<open>videoResolution\<close>
  (\<open>null\<close> is \<open>None\<close>) and \<open>stdoutBuffer\<close>; and the value last handed to
  \<open>Opendatacam.setVideoResolution\<close>.
\<close>

record server_state =
  videoResolution :: "resolution option"
  opendatacamResolution :: "resolution option"
  stdoutBuffer :: string

definition newline :: string where
  "newline = [CHR 0x0A]"

text \<open>
  Lines 56-57: \<open>stdoutText.split("stream:")[1].split("\n")[0]\<close>, the text that the
  resolution is read from.
\<close>

definition ratio_of :: "string \<Rightarrow> js_error + string" where
  "ratio_of stdoutText =
     (case nth_js (split_js stdoutText ''stream:'') 1 of
        None \<Rightarrow> Inl TypeError
      | Some afterStream \<Rightarrow>
          (case nth_js (split_js afterStream newline) 0 of
             None \<Rightarrow> Inl TypeError
           | Some ratio \<Rightarrow> Inr ratio))"

text \<open>
  Lines 58-61: the object literal. \<open>w\<close> is evaluated before \<open>h\<close>; \<open>trim\<close> on a missing
  piece throws.
\<close>

definition resolution_of_ratio :: "string \<Rightarrow> js_error + resolution" where
  "resolution_of_ratio ratio =
     (case nth_js (split_js ratio ''x'') 0 of
        None \<Rightarrow> Inl TypeError
      | Some p0 \<Rightarrow>
          (case nth_js (split_js ratio ''x'') 1 of
             None \<Rightarrow> Inl TypeError
           | Some p1 \<Rightarrow> Inr \<lparr>w = parseInt (trim p0), h = parseInt (trim p1)\<rparr>))"

text \<open>Lines 64-68: append to the buffer and keep its last 3000 characters.\<close>

definition append_buffer :: "string \<Rightarrow> server_state \<Rightarrow> server_state" where
  "append_buffer stdoutText s =
     (let buf = stdoutBuffer s @ stdoutText
      in s\<lparr>stdoutBuffer :=
            (if length buf > 3000 then substring buf (length buf - 3000) (length buf)
             else buf)\<rparr>)"

text \<open>
  Lines 50-69, the function handed to \<open>intercept\<close>. An exception leaves the shared
  variables as they were: nothing is assigned before it is thrown.
\<close>

definition callback :: "string \<Rightarrow> server_state \<Rightarrow> js_error + server_state" where
  "callback stdoutText s =
     (if indexOf stdoutText ''Video stream:'' > - 1 then
        (case ratio_of stdoutText of
           Inl e \<Rightarrow> Inl e
         | Inr ratio \<Rightarrow>
             (case resolution_of_ratio ratio of
                Inl e \<Rightarrow> Inl e
              | Inr r \<Rightarrow>
                  Inr (append_buffer stdoutText
                        (s\<lparr>videoResolution := Some r, opendatacamResolution := Some r\<rparr>))))
      else Inr (append_buffer stdoutText s))"

text \<open>
  The state after one call, whether it returned or threw, and after a sequence of
  chunks delivered in order.
\<close>

definition after_chunk :: "server_state \<Rightarrow> string \<Rightarrow> server_state" where
  "after_chunk s stdoutText = (case callback stdoutText s of Inl e \<Rightarrow> s | Inr s' \<Rightarrow> s')"

definition feed :: "server_state \<Rightarrow> string list \<Rightarrow> server_state" where
  "feed s chunks = foldl after_chunk s chunks"


section \<open>Start-up and the read-only endpoints\<close>

text \<open>
  Line 17: \<open>SIMULATION_MODE = process.env.NODE_ENV !== 'production'\<close>; an unset variable
  is \<open>None\<close>.
\<close>

definition SIMULATION_MODE :: "string option \<Rightarrow> bool" where
  "SIMULATION_MODE node_env \<longleftrightarrow> node_env \<noteq> Some ''production''"

text \<open>Lines 39-49: the shared variables before the callback is installed.\<close>

definition init_state :: "string option \<Rightarrow> server_state" where
  "init_state node_env =
     (if SIMULATION_MODE node_env then
        \<lparr>videoResolution = Some \<lparr>w = Num 1280, h = Num 720\<rparr>,
         opendatacamResolution = Some \<lparr>w = Num 1280, h = Num 720\<rparr>,
         stdoutBuffer = []\<rparr>
      else
        \<lparr>videoResolution = None, opendatacamResolution = None, stdoutBuffer = []\<rparr>)"

text \<open>
  Lines 128-130 and 142-144: \<open>GET /webcam/resolution\<close> answers with \<open>videoResolution\<close>
  (\<open>None\<close> is the JSON \<open>null\<close>), \<open>GET /console\<close> with \<open>stdoutBuffer\<close>.
\<close>

definition get_webcam_resolution :: "server_state \<Rightarrow> resolution option" where
  "get_webcam_resolution s = videoResolution s"

definition get_console :: "server_state \<Rightarrow> string" where
  "get_console s = stdoutBuffer s"

section \<open>Process events: shutdown and uncaught exceptions\<close>

text \<open>
  What the handlers of lines 527-552 do to the process: the number of calls of
  \<open>Opendatacam.clean\<close>, the lines given to \<open>console.log\<close>, whether the \<open>exit\<close> event
  has been emitted, and whether the process has ended.
\<close>

record process_state =
  clean_calls :: nat
  console :: "string list"
  exiting :: bool
  terminated :: bool

text \<open>
  The first argument of \<open>exitHandler\<close>: \<open>{cleanup:true}\<close> or \<open>{exit:true}\<close>; a property
  that is absent reads as \<open>undefined\<close>, which is false in a condition.
\<close>

record options =
  cleanup :: bool
  exit :: bool

text \<open>
  The second argument: the exit code for the \<open>exit\<close> event, the signal's name for a
  signal.
\<close>

datatype exit_arg = Code int | Name string | Undefined

definition truthy :: "exit_arg \<Rightarrow> bool" where
  "truthy a = (case a of Code n \<Rightarrow> n \<noteq> 0 | Name s \<Rightarrow> s \<noteq> [] | Undefined \<Rightarrow> False)"

definition Opendatacam_clean :: "process_state \<Rightarrow> process_state" where
  "Opendatacam_clean s = s\<lparr>clean_calls := clean_calls s + 1\<rparr>"

definition console_log :: "string \<Rightarrow> process_state \<Rightarrow> process_state" where
  "console_log line s = s\<lparr>console := console s @ [line]\<rparr>"

text \<open>A decimal numeral, as \<open>console.log\<close> prints an integer.\<close>

definition dec_digit :: "nat \<Rightarrow> char" where
  "dec_digit d = ''0123456789'' ! d"

fun show_nat :: "nat \<Rightarrow> string" where
  "show_nat n = (if n < 10 then [dec_digit n] else show_nat (n div 10) @ [dec_digit (n mod 10)])"

declare show_nat.simps [simp del]

definition show_int :: "int \<Rightarrow> string" where
  "show_int i = (if i < 0 then ''-'' @ show_nat (nat (- i)) else show_nat (nat i))"

definition render :: "exit_arg \<Rightarrow> string" where
  "render a = (case a of Code n \<Rightarrow> show_int n | Name s \<Rightarrow> s | Undefined \<Rightarrow> ''undefined'')"

text \<open>
  Lines 527-533. The call of \<open>process.exit\<close> is the parameter \<open>process_exit\<close>, since
  \<open>process.exit\<close> itself runs this function as the listener of \<open>exit\<close>. The guard
  \<open>if (options.cleanup)\<close> is commented out in the source, so \<open>clean\<close> is called for every
  \<open>options\<close>.
\<close>

definition exitHandler ::
  "(process_state \<Rightarrow> process_state) \<Rightarrow> options \<Rightarrow> exit_arg \<Rightarrow> process_state \<Rightarrow> process_state"
where
  "exitHandler process_exit options exitCode s =
     (let s1 = Opendatacam_clean s;
          s2 = (if truthy exitCode \<or> exitCode = Code 0 then console_log (render exitCode) s1
                else s1)
      in if exit options then process_exit s2 else s2)"

text \<open>
  Line 536: the listener of \<open>exit\<close> is \<open>exitHandler\<close> bound to \<open>{cleanup:true}\<close>. Its
  \<open>options.exit\<close> is absent, so it never reaches \<open>process.exit\<close>.
\<close>

definition exit_listener :: "int \<Rightarrow> process_state \<Rightarrow> process_state" where
  "exit_listener code s =
     exitHandler (\<lambda>s. s) \<lparr>cleanup = True, exit = False\<rparr> (Code code) s"

text \<open>
  \<open>process.exit()\<close> of the runtime: emit \<open>exit\<close> once, with the exit code, to its
  listeners, then end the process.
\<close>

definition process_exit :: "int \<Rightarrow> process_state \<Rightarrow> process_state" where
  "process_exit code s =
     (if exiting s then s\<lparr>terminated := True\<rparr>
      else (exit_listener code (s\<lparr>exiting := True\<rparr>))\<lparr>terminated := True\<rparr>)"

datatype signal = SIGINT | SIGUSR1 | SIGUSR2

definition signal_name :: "signal \<Rightarrow> string" where
  "signal_name sg = (case sg of SIGINT \<Rightarrow> ''SIGINT'' | SIGUSR1 \<Rightarrow> ''SIGUSR1'' | SIGUSR2 \<Rightarrow> ''SIGUSR2'')"

text \<open>
  Lines 539-543: the listener of each of the three signals is \<open>exitHandler\<close> bound to
  \<open>{exit:true}\<close>; the runtime calls it with the signal's name.
\<close>

definition signal_listener :: "signal \<Rightarrow> process_state \<Rightarrow> process_state" where
  "signal_listener sg s =
     exitHandler (process_exit 0) \<lparr>cleanup = False, exit = True\<rparr> (Name (signal_name sg)) s"

text \<open>A shutdown event: one of the three signals, or the process exiting with a code.\<close>

datatype shutdown_event = Signal signal | Exit int

definition shutdown :: "shutdown_event \<Rightarrow> process_state \<Rightarrow> process_state" where
  "shutdown ev s = (case ev of Signal sg \<Rightarrow> signal_listener sg s | Exit code \<Rightarrow> process_exit code s)"

definition process_start :: process_state where
  "process_start = \<lparr>clean_calls = 0, console = [], exiting = False, terminated = False\<rparr>"




text \<open>
  The runtime on an exception that nothing catches: with no listener of
  \<open>uncaughtException\<close> it ends the process with exit code 1; otherwise it calls the
  listeners in turn and goes on.
\<close>

definition uncaught ::
  "(string \<Rightarrow> process_state \<Rightarrow> process_state) list \<Rightarrow> string \<Rightarrow> process_state \<Rightarrow> process_state"
where
  "uncaught listeners err s =
     (if listeners = [] then process_exit 1 s
      else foldl (\<lambda>st l. l err st) s listeners)"


section \<open>Components that server.js calls and that live in other modules\<close>

subsection \<open>The engine supervisor\<close>

text \<open>
  Modelled from the spec: the module \<open>./server/processes/YOLO\<close> (the spec's
  ProcessSupervisor), which server.js requires and whose \<open>init\<close> and \<open>start\<close> it calls;
  the module's file is not among the sources. The state is the spec's
  EngineProcessState together with a count of the engine processes spawned.
\<close>

datatype EngineProcessState = NotStarted | Starting | Started

record supervisor =
  engineState :: EngineProcessState
  simulated :: bool
  spawned :: nat

text \<open>
  Modelled from the spec: \<open>YOLO.init\<close> is missing; EngineProcessState is "created at
  system init as NotStarted".
\<close>

definition YOLO_init :: "bool \<Rightarrow> supervisor" where
  "YOLO_init simulation_mode =
     \<lparr>engineState = NotStarted, simulated = simulation_mode, spawned = 0\<rparr>"

text \<open>
  Modelled from the spec: \<open>YOLO.start\<close> is missing; it "spawns the detection engine
  [...]; if EngineProcessState is Starting or Started, this call is a no-op", and it
  "transitions NotStarted to Starting synchronously".
\<close>

definition YOLO_start :: "supervisor \<Rightarrow> supervisor" where
  "YOLO_start y =
     (if engineState y = Starting \<or> engineState y = Started then y
      else y\<lparr>engineState := Starting, spawned := spawned y + 1\<rparr>)"

text \<open>
  Modelled from the spec: the confirmation of the start is missing; "then Starting to
  Started once confirmed by the output interceptor or a successful handshake".
\<close>

definition YOLO_confirm :: "supervisor \<Rightarrow> supervisor" where
  "YOLO_confirm y = (if engineState y = Starting then y\<lparr>engineState := Started\<rparr> else y)"

text \<open>
  Lines 80-93: the handler of \<open>GET /\<close> calls \<open>YOLO.start()\<close> on every request; the rest
  of the handler does not reach the supervisor.
\<close>

definition get_root :: "supervisor \<Rightarrow> supervisor" where
  "get_root y = YOLO_start y"

subsection \<open>The recording controller\<close>

text \<open>
  Modelled from the spec: \<open>Opendatacam.startRecording\<close> and
  \<open>Opendatacam.stopRecording\<close> of the module \<open>./server/Opendatacam\<close> (the spec's
  RecordingController), which the handlers of lines 289-307 call; the module's file is
  not among the sources. A session carries the time it started and, once stopped, the
  time it ended; \<open>persisted\<close> lists the sessions handed to the storage collaborator,
  one entry per persistence call.
\<close>

record RecordingSession =
  dateStart :: nat
  dateEnd :: "nat option"

record recorder =
  isRecording :: bool
  session :: "RecordingSession option"
  persisted :: "RecordingSession list"

definition recorder_init :: recorder where
  "recorder_init = \<lparr>isRecording = False, session = None, persisted = []\<rparr>"

text \<open>
  Modelled from the spec: \<open>startRecording\<close> is missing; "if recording is already active,
  no-op (idempotent); otherwise creates a RecordingSession snapshotting current
  counting-area configuration and timestamp, flips state to Recording".
\<close>

definition startRecording :: "nat \<Rightarrow> recorder \<Rightarrow> recorder" where
  "startRecording now r =
     (if isRecording r then r
      else r\<lparr>isRecording := True, session := Some \<lparr>dateStart = now, dateEnd = None\<rparr>\<rparr>)"

text \<open>
  Modelled from the spec: \<open>stopRecording\<close> is missing; "if not recording, no-op;
  otherwise stamps session end time, finalizes persistence via the storage
  collaborator, and flips state to NotRecording".
\<close>

definition stopRecording :: "nat \<Rightarrow> recorder \<Rightarrow> recorder" where
  "stopRecording now r =
     (if \<not> isRecording r then r
      else (case session r of
              None \<Rightarrow> r\<lparr>isRecording := False\<rparr>
            | Some ses \<Rightarrow>
                r\<lparr>isRecording := False,
                  session := Some (ses\<lparr>dateEnd := Some now\<rparr>),
                  persisted := persisted r @ [ses\<lparr>dateEnd := Some now\<rparr>]\<rparr>))"

text \<open>
  Lines 289-307: each handler calls the controller and answers 200; \<open>now\<close> is the clock
  at the request.
\<close>

definition get_recording_start :: "nat \<Rightarrow> recorder \<Rightarrow> recorder \<times> nat" where
  "get_recording_start now r = (startRecording now r, 200)"

definition get_recording_stop :: "nat \<Rightarrow> recorder \<Rightarrow> recorder \<times> nat" where
  "get_recording_stop now r = (stopRecording now r, 200)"

section \<open>The MJPEG endpoint\<close>

text \<open>
  Lines 109-113: the handler of \<open>GET /webcam/stream\<close> builds a new \<open>MjpegProxy\<close> for
  the engine's address and hands it the request; server.js keeps no variable for the
  proxy it built. The constructor and \<open>proxyRequest\<close> belong to the package
  \<open>mjpeg-proxy\<close> and are parameters here. \<open>proxies\<close> is the list of the proxy objects
  built so far, oldest first; a client's request and response are one number.
\<close>

definition engine_url :: "string \<Rightarrow> string" where
  "engine_url address = ''http://'' @ address @ '':8090''"

definition get_webcam_stream ::
  "(string \<Rightarrow> 'p) \<Rightarrow> ('p \<Rightarrow> nat \<Rightarrow> 'p) \<Rightarrow> string \<Rightarrow> nat \<Rightarrow> 'p list \<Rightarrow> 'p list"
where
  "get_webcam_stream new_MjpegProxy proxyRequest address client proxies =
     proxies @ [proxyRequest (new_MjpegProxy (engine_url address)) client]"

text \<open>
  A proxy object as the handler uses it: the address it relays from and the clients
  handed to it, each of which it serves until that client or the engine goes away.
\<close>

record mjpeg_proxy =
  mjpegUrl :: string
  audience :: "nat list"

definition MjpegProxy :: "string \<Rightarrow> mjpeg_proxy" where
  "MjpegProxy url = \<lparr>mjpegUrl = url, audience = []\<rparr>"

definition proxyRequest :: "mjpeg_proxy \<Rightarrow> nat \<Rightarrow> mjpeg_proxy" where
  "proxyRequest p client = p\<lparr>audience := audience p @ [client]\<rparr>"

text \<open>The clients being served by some proxy.\<close>

definition live_clients :: "mjpeg_proxy list \<Rightarrow> nat list" where
  "live_clients proxies = concat (map audience proxies)"

section \<open>The parsed text, as the code takes it and as a reading of it\<close>

text \<open>The text up to the next occurrence of \<open>stream:\<close>, all of it when there is none.\<close>

definition before_next_stream :: "string \<Rightarrow> string" where
  "before_next_stream r = (case index_of ''stream:'' r of None \<Rightarrow> r | Some j \<Rightarrow> take j r)"

text \<open>
  The reading "the text following the first occurrence of \<open>stream:\<close> in the whole
  chunk, up to the next newline".
\<close>

definition segment_to_newline :: "string \<Rightarrow> string option" where
  "segment_to_newline chunk =
     (case index_of ''stream:'' chunk of
        None \<Rightarrow> None
      | Some i \<Rightarrow> Some (takeWhile (\<lambda>c. c \<noteq> CHR 0x0A) (drop (i + 7) chunk)))"


text \<open>The first piece that \<open>split\<close> returns.\<close>

definition first_piece :: "string \<Rightarrow> string \<Rightarrow> string" where
  "first_piece sep s = (case index_of sep s of None \<Rightarrow> s | Some i \<Rightarrow> take i s)"

text \<open>The decimal digits, and the characters of a decimal numeral with its sign.\<close>

definition is_dec :: "char \<Rightarrow> bool" where
  "is_dec c \<longleftrightarrow> c \<in> set ''0123456789''"

definition is_numeral_char :: "char \<Rightarrow> bool" where
  "is_numeral_char c \<longleftrightarrow> is_dec c \<or> c = CHR ''-''"

section \<open>The log buffer\<close>

lemma substring_tail: "substring s (length s - n) (length s) = drop (length s - n) s"
  by (simp add: substring_def Let_def min_def max_def)

lemma stdoutBuffer_append_buffer:
  "stdoutBuffer (append_buffer t s) =
     drop (length (stdoutBuffer s @ t) - 3000) (stdoutBuffer s @ t)"
  unfolding append_buffer_def Let_def
  by (simp only: substring_tail) simp

lemma length_append_buffer: "length (stdoutBuffer (append_buffer t s)) \<le> 3000"
  unfolding stdoutBuffer_append_buffer by simp

lemma videoResolution_append_buffer [simp]:
  "videoResolution (append_buffer t s) = videoResolution s"
  by (simp add: append_buffer_def Let_def)

text \<open>A call that returns has appended its chunk and kept the last 3000 characters.\<close>

lemma callback_buffer:
  "callback t s = Inr s' \<Longrightarrow>
     stdoutBuffer s' = drop (length (stdoutBuffer s @ t) - 3000) (stdoutBuffer s @ t)"
  by (auto simp: callback_def stdoutBuffer_append_buffer split: if_splits sum.splits)

lemma after_chunk_length:
  "length (stdoutBuffer s) \<le> 3000 \<Longrightarrow> length (stdoutBuffer (after_chunk s t)) \<le> 3000"
  by (auto simp: after_chunk_def callback_def length_append_buffer split: sum.splits if_splits)

lemma feed_length:
  "length (stdoutBuffer s) \<le> 3000 \<Longrightarrow> length (stdoutBuffer (feed s chunks)) \<le> 3000"
  unfolding feed_def
  by (induction chunks arbitrary: s) (simp_all add: after_chunk_length)

text \<open>Whether a call throws depends on the chunk alone.\<close>

lemma callback_returns_any_state:
  "(\<exists>s'. callback t s1 = Inr s') \<longleftrightarrow> (\<exists>s'. callback t s2 = Inr s')"
  by (auto simp: callback_def split: sum.splits)

lemma last_chars_step:
  fixes B t :: "'a list"
  shows "drop (length (drop (length B - n) B @ t) - n) (drop (length B - n) B @ t)
           = drop (length (B @ t) - n) (B @ t)"
proof (cases "length B \<le> n")
  case True
  then show ?thesis by simp
next
  case False
  then have "length (drop (length B - n) B @ t) - n = length t" by simp
  moreover have "length (B @ t) - n = (length B - n) + length t" using False by simp
  ultimately show ?thesis by (simp add: add.commute)
qed

text \<open>
  When no call throws, the buffer after a sequence of chunks is the last 3000
  characters of everything fed, or all of it when that is shorter.
\<close>

lemma feed_buffer:
  assumes "length (stdoutBuffer s) \<le> 3000"
    and "\<forall>t\<in>set chunks. \<exists>s'. callback t s = Inr s'"
  shows "stdoutBuffer (feed s chunks)
           = drop (length (stdoutBuffer s @ concat chunks) - 3000) (stdoutBuffer s @ concat chunks)"
  using assms unfolding feed_def
proof (induction chunks arbitrary: s)
  case Nil
  then show ?case by simp
next
  case (Cons t chunks)
  from Cons.prems(2) obtain s1 where s1: "callback t s = Inr s1" by auto
  then have a: "after_chunk s t = s1" by (simp add: after_chunk_def)
  from s1 have b: "stdoutBuffer s1
      = drop (length (stdoutBuffer s @ t) - 3000) (stdoutBuffer s @ t)"
    by (rule callback_buffer)
  then have len: "length (stdoutBuffer s1) \<le> 3000" by simp
  have "\<forall>u\<in>set chunks. \<exists>s'. callback u s1 = Inr s'"
    using Cons.prems(2) callback_returns_any_state [of _ s s1] by simp
  with Cons.IH [OF len] have
    "stdoutBuffer (foldl after_chunk s1 chunks)
       = drop (length (stdoutBuffer s1 @ concat chunks) - 3000) (stdoutBuffer s1 @ concat chunks)"
    by blast
  also have "\<dots> = drop (length ((stdoutBuffer s @ t) @ concat chunks) - 3000)
                       ((stdoutBuffer s @ t) @ concat chunks)"
  proof -
    let ?B = "stdoutBuffer s @ t"
    have "drop (length (drop (length ?B - 3000) ?B @ concat chunks) - 3000)
               (drop (length ?B - 3000) ?B @ concat chunks)
            = drop (length (?B @ concat chunks) - 3000) (?B @ concat chunks)"
      by (rule last_chars_step)
    then show ?thesis unfolding b by simp
  qed
  finally show ?case using a by simp
qed

text \<open>
  Claim C2, at an input where the code departs from it. The claim: after each call the
  buffer is the last \<open>min 3000 n\<close> characters of the concatenation of all chunks fed so
  far. On the chunk \<open>Video stream: abc\<close>, fed first, the text after \<open>stream:\<close> has no
  \<open>x\<close>, line 60 throws a TypeError, and line 64 is never reached: the buffer that
  \<open>GET /console\<close> returns stays empty, while the chunks fed so far concatenate to the
  17 characters of the chunk.
\<close>

theorem console_buffer_loses_chunk:
  "callback ''Video stream: abc'' (init_state None) = Inl TypeError
   \<and> get_console (feed (init_state None) [''Video stream: abc'']) = []
   \<and> drop (length (concat [''Video stream: abc'']) - 3000) (concat [''Video stream: abc''])
       = ''Video stream: abc''"
  by code_simp

section \<open>The preset resolution\<close>

lemma after_chunk_resolution:
  "videoResolution s \<noteq> None \<Longrightarrow> videoResolution (after_chunk s t) \<noteq> None"
  by (auto simp: after_chunk_def callback_def split: sum.splits if_splits)

lemma feed_resolution:
  "videoResolution s \<noteq> None \<Longrightarrow> videoResolution (feed s chunks) \<noteq> None"
  unfolding feed_def
proof (induction chunks arbitrary: s)
  case Nil
  then show ?case by simp
next
  case (Cons t chunks)
  from Cons.prems have "videoResolution (after_chunk s t) \<noteq> None"
    by (rule after_chunk_resolution)
  then have "videoResolution (foldl after_chunk (after_chunk s t) chunks) \<noteq> None"
    by (rule Cons.IH)
  then show ?case by simp
qed

text \<open>
  Claim C9. When \<open>NODE_ENV\<close> is not \<open>production\<close>, \<open>videoResolution\<close> is \<open>{w: 1280, h: 720}\<close>
  before the callback has seen any output, and whatever chunks arrive afterwards,
  \<open>GET /webcam/resolution\<close> never answers \<open>null\<close>.
\<close>

theorem simulation_resolution_preset:
  assumes "SIMULATION_MODE node_env"
  shows "videoResolution (init_state node_env) = Some \<lparr>w = Num 1280, h = Num 720\<rparr>
         \<and> get_webcam_resolution (init_state node_env) = Some \<lparr>w = Num 1280, h = Num 720\<rparr>
         \<and> (\<forall>chunks. get_webcam_resolution (feed (init_state node_env) chunks) \<noteq> None)"
  using assms by (simp add: init_state_def get_webcam_resolution_def feed_resolution)

theorem simulation_resolution_preset_witness:
  "SIMULATION_MODE (Some ''development'')
   \<and> videoResolution (init_state (Some ''development'')) = Some \<lparr>w = Num 1280, h = Num 720\<rparr>
   \<and> get_webcam_resolution
        (feed (init_state (Some ''development''))
           [''Video stream: a x b'', ''Video stream: abc'']) \<noteq> None"
proof -
  have h: "SIMULATION_MODE (Some ''development'')" by (simp add: SIMULATION_MODE_def)
  from simulation_resolution_preset [OF h] h show ?thesis by blast
qed

section \<open>Shutdown\<close>

lemma exit_listener_effect:
  "exit_listener code s =
     s\<lparr>clean_calls := clean_calls s + 1, console := console s @ [show_int code]\<rparr>"
  by (cases "code = 0")
     (simp_all add: exit_listener_def exitHandler_def Opendatacam_clean_def console_log_def
        truthy_def render_def Let_def)

lemma signal_name_nonempty: "signal_name sg \<noteq> []"
  by (cases sg) (simp_all add: signal_name_def)

text \<open>
  Claim C5 as stated fails: on SIGINT the handler of the signal calls
  \<open>Opendatacam.clean\<close> and then \<open>process.exit\<close>, which emits \<open>exit\<close>, whose handler calls
  \<open>Opendatacam.clean\<close> again. One interrupt, two calls.
\<close>

theorem signal_cleans_twice:
  "clean_calls process_start = 0 \<and> clean_calls (shutdown (Signal SIGINT) process_start) = 2"
  by code_simp

text \<open>
  Claim C5, amended. For every shutdown event of a process that is not already exiting,
  \<open>Opendatacam.clean\<close> is invoked at least once and the process ends: exactly once when
  the process exits, exactly twice on the interrupt signal and on each of the two
  user-defined signals (once by the signal's handler, once by the \<open>exit\<close> handler that
  its call of \<open>process.exit\<close> runs).
\<close>

theorem shutdown_clean_calls:
  assumes "\<not> exiting s"
  shows "clean_calls (shutdown ev s)
           = clean_calls s + (case ev of Signal sg \<Rightarrow> 2 | Exit code \<Rightarrow> 1)
         \<and> terminated (shutdown ev s)"
proof (cases ev)
  case (Signal sg)
  with assms show ?thesis
    by (simp add: shutdown_def signal_listener_def exitHandler_def process_exit_def
        exit_listener_effect Opendatacam_clean_def console_log_def truthy_def
        signal_name_nonempty Let_def)
next
  case (Exit code)
  with assms show ?thesis
    by (simp add: shutdown_def process_exit_def exit_listener_effect)
qed

theorem shutdown_clean_calls_witness:
  "\<not> exiting process_start
   \<and> clean_calls (shutdown (Signal SIGUSR1) process_start) = 2
   \<and> clean_calls (shutdown (Exit 0) process_start) = 1"
proof -
  have h: "\<not> exiting process_start" by (simp add: process_start_def)
  have z: "clean_calls process_start = 0" by (simp add: process_start_def)
  from shutdown_clean_calls [OF h, of "Signal SIGUSR1"]
       shutdown_clean_calls [OF h, of "Exit 0"] h z
  show ?thesis by simp
qed

section \<open>Uncaught exceptions\<close>

text \<open>Without the listener of lines 549-552 the runtime would end the process.\<close>

lemma uncaught_without_listener: "terminated (uncaught [] err s)"
  by (simp add: uncaught_def process_exit_def)



section \<open>Starting the engine\<close>

lemma YOLO_start_twice: "YOLO_start (YOLO_start y) = YOLO_start y"
  by (simp add: YOLO_start_def)

lemma get_root_pow:
  "(get_root ^^ Suc n) (YOLO_init sim)
     = \<lparr>engineState = Starting, simulated = sim, spawned = 1\<rparr>"
  by (induction n) (simp_all add: get_root_def YOLO_start_def YOLO_init_def)

text \<open>
  Claim C7. \<open>start\<close> is a no-op when the engine is Starting or Started, and a second
  \<open>start\<close> never changes what the first left; two calls in a row after \<open>init\<close> spawn
  one engine process and leave the state at Starting, and so does any number of
  requests of \<open>GET /\<close>.
\<close>

theorem YOLO_start_idempotent:
  "(engineState y = Starting \<or> engineState y = Started \<longrightarrow> YOLO_start y = y)
   \<and> YOLO_start (YOLO_start y) = YOLO_start y
   \<and> spawned (YOLO_start (YOLO_start (YOLO_init sim))) = 1
   \<and> engineState (YOLO_start (YOLO_start (YOLO_init sim))) = Starting
   \<and> (\<forall>n. spawned ((get_root ^^ Suc n) (YOLO_init sim)) = 1)"
  by (simp add: YOLO_start_twice get_root_pow del: funpow.simps)
     (simp add: YOLO_start_def YOLO_init_def)

theorem YOLO_start_idempotent_witness:
  "engineState (YOLO_confirm (YOLO_start (YOLO_init True))) = Started
   \<and> YOLO_start (YOLO_confirm (YOLO_start (YOLO_init True)))
       = YOLO_confirm (YOLO_start (YOLO_init True))
   \<and> spawned (YOLO_start (YOLO_confirm (YOLO_start (YOLO_init True)))) = 1"
proof -
  have h: "engineState (YOLO_confirm (YOLO_start (YOLO_init True))) = Started"
    by (simp add: YOLO_confirm_def YOLO_start_def YOLO_init_def)
  have sp: "spawned (YOLO_confirm (YOLO_start (YOLO_init True))) = 1"
    by (simp add: YOLO_confirm_def YOLO_start_def YOLO_init_def)
  from YOLO_start_idempotent [of "YOLO_confirm (YOLO_start (YOLO_init True))" True] h sp
  show ?thesis by simp
qed

section \<open>Recording\<close>

text \<open>
  Claim C8. A second \<open>start\<close> with no \<open>stop\<close> in between leaves the controller as the first
  \<open>start\<close> left it, so the session keeps its \<open>dateStart\<close>; a \<open>stop\<close> when not recording
  changes nothing: no persistence call is made and the state stays NotRecording.
\<close>

theorem recording_redundant_calls:
  "fst (get_recording_start t2 (fst (get_recording_start t1 r))) = fst (get_recording_start t1 r)
   \<and> (\<not> isRecording r \<longrightarrow>
        map_option dateStart
          (session (fst (get_recording_start t2 (fst (get_recording_start t1 r))))) = Some t1)
   \<and> (\<not> isRecording r \<longrightarrow>
        fst (get_recording_stop t r) = r
        \<and> persisted (fst (get_recording_stop t r)) = persisted r
        \<and> \<not> isRecording (fst (get_recording_stop t r)))"
  by (simp add: get_recording_start_def get_recording_stop_def startRecording_def
      stopRecording_def)

theorem recording_redundant_calls_witness:
  "\<not> isRecording recorder_init
   \<and> map_option dateStart
        (session (fst (get_recording_start 20 (fst (get_recording_start 10 recorder_init)))))
       = Some 10
   \<and> persisted (fst (get_recording_stop 30 recorder_init)) = []
   \<and> \<not> isRecording (fst (get_recording_stop 30 recorder_init))"
proof -
  have h: "\<not> isRecording recorder_init" and p: "persisted recorder_init = []"
    by (simp_all add: recorder_init_def)
  note th = recording_redundant_calls [of 20 10 recorder_init 30]
  from th h have a: "map_option dateStart
        (session (fst (get_recording_start 20 (fst (get_recording_start 10 recorder_init)))))
       = Some 10"
    by blast
  from th h have b: "persisted (fst (get_recording_stop 30 recorder_init)) = persisted recorder_init"
    and c: "\<not> isRecording (fst (get_recording_stop 30 recorder_init))"
    by blast+
  from h a b c p show ?thesis by simp
qed

section \<open>A second MJPEG client\<close>

text \<open>
  Whatever the package's constructor and \<open>proxyRequest\<close> do with the new proxy, the
  handler leaves every proxy built before as it was: it has no reference to them.
\<close>

lemma get_webcam_stream_keeps:
  "take (length proxies) (get_webcam_stream new_MjpegProxy proxyRequest address client proxies)
     = proxies"
  by (simp add: get_webcam_stream_def)

text \<open>
  Claim C4, at an input where the code departs from it. The claim: at most one MJPEG
  subscription is live, and a second one closes the first one's channel and upstream
  connection. After two requests of \<open>GET /webcam/stream\<close>, from clients 1 and 2, there
  are two proxies, each with its own connection to the engine; the first still serves
  client 1, and both clients are live.
\<close>

theorem second_stream_keeps_first:
  "get_webcam_stream MjpegProxy proxyRequest ''localhost'' 2
     (get_webcam_stream MjpegProxy proxyRequest ''localhost'' 1 [])
     = [\<lparr>mjpegUrl = ''http://localhost:8090'', audience = [1]\<rparr>,
        \<lparr>mjpegUrl = ''http://localhost:8090'', audience = [2]\<rparr>]
   \<and> live_clients
        (get_webcam_stream MjpegProxy proxyRequest ''localhost'' 2
           (get_webcam_stream MjpegProxy proxyRequest ''localhost'' 1 []))
       = [1, 2]"
  by (simp add: get_webcam_stream_def MjpegProxy_def proxyRequest_def engine_url_def
      live_clients_def)

section \<open>What the callback reads the resolution from\<close>

lemma index_of_prefix: "index_of sub s = Some i \<Longrightarrow> prefix sub (drop i s)"
proof (induction s arbitrary: i)
  case Nil
  then show ?case by (simp split: if_splits)
next
  case (Cons c cs)
  then show ?case by (auto split: if_splits)
qed

lemma index_of_first: "index_of sub s = Some i \<Longrightarrow> j < i \<Longrightarrow> \<not> prefix sub (drop j s)"
proof (induction s arbitrary: i j)
  case Nil
  then show ?case by (simp split: if_splits)
next
  case (Cons c cs)
  show ?case
  proof (cases "prefix sub (c # cs)")
    case True
    with Cons.prems show ?thesis by simp
  next
    case False
    with Cons.prems obtain i' where i': "index_of sub cs = Some i'" "i = Suc i'" by auto
    show ?thesis
    proof (cases j)
      case 0
      with False show ?thesis by simp
    next
      case (Suc j')
      with Cons.prems i' have "j' < i'" by simp
      with Cons.IH i' have "\<not> prefix sub (drop j' cs)" by blast
      with Suc show ?thesis by simp
    qed
  qed
qed

lemma index_of_exists:
  "prefix sub (drop j s) \<Longrightarrow> j \<le> length s \<Longrightarrow> \<exists>i\<le>j. index_of sub s = Some i"
proof (induction s arbitrary: j)
  case Nil
  then show ?case by simp
next
  case (Cons c cs)
  show ?case
  proof (cases "prefix sub (c # cs)")
    case True
    then show ?thesis by simp
  next
    case False
    with Cons.prems obtain j' where j': "j = Suc j'" by (cases j) auto
    with Cons.prems have "prefix sub (drop j' cs)" "j' \<le> length cs" by simp_all
    with Cons.IH obtain i where "i \<le> j'" "index_of sub cs = Some i" by blast
    with False j' show ?thesis by simp
  qed
qed

lemma split_js_Some:
  "sep \<noteq> [] \<Longrightarrow> index_of sep s = Some i \<Longrightarrow>
     split_js s sep = take i s # split_js (drop (i + length sep) s) sep"
  by (subst split_js.simps) simp

lemma split_js_None: "sep \<noteq> [] \<Longrightarrow> index_of sep s = None \<Longrightarrow> split_js s sep = [s]"
  by (subst split_js.simps) simp

lemma split_js_first: "sep \<noteq> [] \<Longrightarrow> \<exists>rest. split_js s sep = first_piece sep s # rest"
  by (cases "index_of sep s") (simp_all add: split_js_Some split_js_None first_piece_def)

lemma nth_js_Cons_0 [simp]: "nth_js (x # xs) 0 = Some x"
  by (simp add: nth_js_def)

lemma nth_js_Cons_1 [simp]: "nth_js (x # y # ys) (Suc 0) = Some y"
  by (simp add: nth_js_def)

lemma nth_js_single_1 [simp]: "nth_js [x] (Suc 0) = None"
  by (simp add: nth_js_def)

lemma index_of_char:
  "index_of [c] s = (if c \<in> set s then Some (length (takeWhile (\<lambda>a. a \<noteq> c) s)) else None)"
  by (induction s) auto

lemma takeWhile_notin: "c \<notin> set s \<Longrightarrow> takeWhile (\<lambda>a. a \<noteq> c) s = s"
  by (induction s) auto

lemma first_piece_char: "first_piece [c] s = takeWhile (\<lambda>a. a \<noteq> c) s"
proof (cases "c \<in> set s")
  case True
  then show ?thesis
    by (simp add: first_piece_def index_of_char takeWhile_eq_take [symmetric])
next
  case False
  then show ?thesis by (simp add: first_piece_def index_of_char takeWhile_notin)
qed

lemma before_next_stream_first_piece: "before_next_stream r = first_piece ''stream:'' r"
  by (simp add: before_next_stream_def first_piece_def)

lemma ratio_of_Some:
  assumes "index_of ''stream:'' chunk = Some i"
  shows "ratio_of chunk
           = Inr (takeWhile (\<lambda>c. c \<noteq> CHR 0x0A) (before_next_stream (drop (i + 7) chunk)))"
proof -
  obtain rest where r: "split_js (drop (i + 7) chunk) ''stream:''
                         = before_next_stream (drop (i + 7) chunk) # rest"
    using split_js_first [of "''stream:''" "drop (i + 7) chunk"]
    by (auto simp: before_next_stream_first_piece)
  have len7: "length ''stream:'' = 7" by simp
  have "split_js chunk ''stream:''
          = take i chunk # split_js (drop (i + length ''stream:'') chunk) ''stream:''"
    using assms by (intro split_js_Some) simp_all
  then have "split_js chunk ''stream:''
               = take i chunk # before_next_stream (drop (i + 7) chunk) # rest"
    by (simp only: len7 r)
  moreover obtain rest' where
    "split_js (before_next_stream (drop (i + 7) chunk)) newline
       = takeWhile (\<lambda>c. c \<noteq> CHR 0x0A) (before_next_stream (drop (i + 7) chunk)) # rest'"
    using split_js_first [of newline "before_next_stream (drop (i + 7) chunk)"]
    by (auto simp: newline_def first_piece_char)
  ultimately show ?thesis by (simp add: ratio_of_def)
qed

lemma marker_has_stream:
  assumes "index_of ''Video stream:'' chunk = Some m"
  shows "\<exists>i\<le>m + 6. index_of ''stream:'' chunk = Some i"
proof -
  from assms have "prefix ''Video stream:'' (drop m chunk)" by (rule index_of_prefix)
  then obtain r where r: "drop m chunk = ''Video stream:'' @ r" by (auto simp: prefix_def)
  have "drop (m + 6) chunk = drop 6 (drop m chunk)" by (simp add: add.commute)
  with r have "prefix ''stream:'' (drop (m + 6) chunk)" by simp
  moreover from assms have "m + 13 \<le> length chunk" using index_of_bound by fastforce
  ultimately show ?thesis using index_of_exists [of "''stream:''" "m + 6" chunk] by simp
qed


lemma marker_ratio:
  assumes "indexOf chunk ''Video stream:'' > - 1"
  shows "\<exists>i. index_of ''stream:'' chunk = Some i
             \<and> (\<forall>m. index_of ''Video stream:'' chunk = Some m \<longrightarrow> i \<le> m + 6)
             \<and> ratio_of chunk
                 = Inr (takeWhile (\<lambda>c. c \<noteq> CHR 0x0A) (before_next_stream (drop (i + 7) chunk)))"
proof -
  from assms obtain m where m: "index_of ''Video stream:'' chunk = Some m"
    by (auto simp: indexOf_def split: option.splits)
  then obtain i where i: "i \<le> m + 6" "index_of ''stream:'' chunk = Some i"
    using marker_has_stream by blast
  with m ratio_of_Some [OF i(2)] show ?thesis by simp
qed

lemma split_x_with:
  assumes "CHR ''x'' \<in> set ratio"
  shows "\<exists>rest. split_js ratio ''x''
           = takeWhile (\<lambda>c. c \<noteq> CHR ''x'') ratio
             # takeWhile (\<lambda>c. c \<noteq> CHR ''x'') (drop 1 (dropWhile (\<lambda>c. c \<noteq> CHR ''x'') ratio))
             # rest"
proof -
  let ?i = "length (takeWhile (\<lambda>c. c \<noteq> CHR ''x'') ratio)"
  from assms have ix: "index_of ''x'' ratio = Some ?i" by (simp add: index_of_char)
  have "split_js ratio ''x'' = take ?i ratio # split_js (drop (?i + length ''x'') ratio) ''x''"
    using ix by (intro split_js_Some) simp_all
  moreover have "take ?i ratio = takeWhile (\<lambda>c. c \<noteq> CHR ''x'') ratio"
    by (simp add: takeWhile_eq_take [symmetric])
  moreover have "drop (?i + length ''x'') ratio = drop 1 (dropWhile (\<lambda>c. c \<noteq> CHR ''x'') ratio)"
    by (simp add: dropWhile_eq_drop)
  moreover obtain rest where
    "split_js (drop 1 (dropWhile (\<lambda>c. c \<noteq> CHR ''x'') ratio)) ''x''
       = takeWhile (\<lambda>c. c \<noteq> CHR ''x'') (drop 1 (dropWhile (\<lambda>c. c \<noteq> CHR ''x'') ratio)) # rest"
    using split_js_first [of "''x''" "drop 1 (dropWhile (\<lambda>c. c \<noteq> CHR ''x'') ratio)"]
    by (auto simp: first_piece_char)
  ultimately show ?thesis by simp
qed

lemma resolution_of_ratio_with_x:
  assumes "CHR ''x'' \<in> set ratio"
  shows "resolution_of_ratio ratio
           = Inr \<lparr>w = parseInt (trim (takeWhile (\<lambda>c. c \<noteq> CHR ''x'') ratio)),
                  h = parseInt (trim (takeWhile (\<lambda>c. c \<noteq> CHR ''x'')
                                        (drop 1 (dropWhile (\<lambda>c. c \<noteq> CHR ''x'') ratio))))\<rparr>"
proof -
  from split_x_with [OF assms] obtain rest where
    "split_js ratio ''x''
       = takeWhile (\<lambda>c. c \<noteq> CHR ''x'') ratio
         # takeWhile (\<lambda>c. c \<noteq> CHR ''x'') (drop 1 (dropWhile (\<lambda>c. c \<noteq> CHR ''x'') ratio))
         # rest" ..
  then show ?thesis by (simp add: resolution_of_ratio_def)
qed

lemma resolution_of_ratio_without_x:
  assumes "CHR ''x'' \<notin> set ratio"
  shows "resolution_of_ratio ratio = Inl TypeError"
proof -
  from assms have "index_of ''x'' ratio = None" by (simp add: index_of_char)
  then have "split_js ratio ''x'' = [ratio]" by (intro split_js_None) simp_all
  then show ?thesis by (simp add: resolution_of_ratio_def)
qed

text \<open>
  A chunk with the marker whose parsed text has no \<open>x\<close> makes the callback throw.
\<close>

lemma callback_without_x:
  assumes "indexOf text ''Video stream:'' > - 1"
    and "ratio_of text = Inr ratio"
    and "CHR ''x'' \<notin> set ratio"
  shows "callback text s = Inl TypeError"
  using assms by (simp add: callback_def resolution_of_ratio_without_x)

text \<open>
  Claim C1 as stated fails. The chunk \<open>Video stream: notanumber x 480\<close> has the marker,
  and what follows does not parse as two integers: \<open>parseInt\<close> of the part before the
  \<open>x\<close> is NaN. With \<open>videoResolution\<close> at \<open>{w: 640, h: 480}\<close> before the call, it is
  \<open>{w: NaN, h: 480}\<close> after it: the prior value is not retained.
\<close>

theorem malformed_resolution_overwrites:
  "indexOf (''Video stream: notanumber x 480'' @ newline) ''Video stream:'' > - 1
   \<and> parseInt (trim '' notanumber '') = NaN
   \<and> videoResolution
        (after_chunk \<lparr>videoResolution = Some \<lparr>w = Num 640, h = Num 480\<rparr>,
                      opendatacamResolution = Some \<lparr>w = Num 640, h = Num 480\<rparr>,
                      stdoutBuffer = []\<rparr>
           (''Video stream: notanumber x 480'' @ newline))
       = Some \<lparr>w = NaN, h = Num 480\<rparr>"
  by code_simp

text \<open>
  Claim C1, amended. On a chunk that contains the marker and whose parsed text (after
  the first \<open>stream:\<close>, up to the next \<open>stream:\<close> or newline) contains an \<open>x\<close>, the
  callback does not raise, and it overwrites \<open>videoResolution\<close> with what \<open>parseInt\<close>
  makes of the trimmed text before the first \<open>x\<close> and of the trimmed text between the
  first \<open>x\<close> and the next; a part that does not start with an integer is stored as NaN.
\<close>

theorem malformed_resolution_is_stored:
  assumes "indexOf text ''Video stream:'' > - 1"
    and "ratio_of text = Inr ratio"
    and "CHR ''x'' \<in> set ratio"
  shows "\<exists>s'. callback text s = Inr s'
           \<and> videoResolution s'
               = Some \<lparr>w = parseInt (trim (takeWhile (\<lambda>c. c \<noteq> CHR ''x'') ratio)),
                        h = parseInt (trim (takeWhile (\<lambda>c. c \<noteq> CHR ''x'')
                                (drop 1 (dropWhile (\<lambda>c. c \<noteq> CHR ''x'') ratio))))\<rparr>"
  using assms by (simp add: callback_def resolution_of_ratio_with_x)

theorem malformed_resolution_is_stored_witness:
  "indexOf ''Video stream: notanumber x 480'' ''Video stream:'' > - 1
   \<and> ratio_of ''Video stream: notanumber x 480'' = Inr '' notanumber x 480''
   \<and> CHR ''x'' \<in> set '' notanumber x 480''
   \<and> (\<exists>s'. callback ''Video stream: notanumber x 480'' (init_state None) = Inr s'
           \<and> videoResolution s' = Some \<lparr>w = NaN, h = Num 480\<rparr>)"
proof -
  have a: "indexOf ''Video stream: notanumber x 480'' ''Video stream:'' > - 1" by code_simp
  have b: "ratio_of ''Video stream: notanumber x 480'' = Inr '' notanumber x 480''" by code_simp
  have c: "CHR ''x'' \<in> set '' notanumber x 480''" by simp
  have d: "parseInt (trim (takeWhile (\<lambda>c. c \<noteq> CHR ''x'') '' notanumber x 480'')) = NaN"
    by code_simp
  have e: "parseInt (trim (takeWhile (\<lambda>c. c \<noteq> CHR ''x'')
             (drop 1 (dropWhile (\<lambda>c. c \<noteq> CHR ''x'') '' notanumber x 480'')))) = Num 480"
    by code_simp
  from malformed_resolution_is_stored [OF a b c, of "init_state None"] 
  show ?thesis unfolding d e using a b c by blast
qed

text \<open>
  Claim C10 as stated fails where the next \<open>stream:\<close> comes before the next newline. In
  the chunk \<open>stream: Video stream: 640 x 480\<close> with a newline at its end, the text
  after the first \<open>stream:\<close> up to the next newline is \<open> Video stream: 640 x 480\<close>; the
  code parses \<open> Video \<close>, since \<open>split\<close> cuts at every \<open>stream:\<close>.
\<close>

theorem parsed_text_differs_from_line:
  "indexOf (''stream: Video stream: 640 x 480'' @ newline) ''Video stream:'' > - 1
   \<and> ratio_of (''stream: Video stream: 640 x 480'' @ newline) = Inr '' Video ''
   \<and> segment_to_newline (''stream: Video stream: 640 x 480'' @ newline)
       = Some '' Video stream: 640 x 480''"
  by code_simp

text \<open>
  Claim C10, amended. When a chunk contains the marker, the parsed text is the text
  following the first occurrence of \<open>stream:\<close> in the whole chunk, up to the next
  newline or the next occurrence of \<open>stream:\<close>, whichever comes first. That first
  occurrence is at or before the one inside the marker; when it is before, the parsed
  text belongs to the earlier occurrence, not to the announcement line.
\<close>

theorem parsed_text_follows_first_stream:
  assumes "indexOf chunk ''Video stream:'' > - 1"
  shows "\<exists>i. index_of ''stream:'' chunk = Some i
             \<and> (\<forall>m. index_of ''Video stream:'' chunk = Some m \<longrightarrow> i \<le> m + 6)
             \<and> ratio_of chunk
                 = Inr (takeWhile (\<lambda>c. c \<noteq> CHR 0x0A) (before_next_stream (drop (i + 7) chunk)))"
  using assms by (rule marker_ratio)

theorem parsed_text_follows_first_stream_witness:
  "indexOf (''stream: 1 x 2'' @ newline @ ''Video stream: 640 x 480'') ''Video stream:'' > - 1
   \<and> ratio_of (''stream: 1 x 2'' @ newline @ ''Video stream: 640 x 480'') = Inr '' 1 x 2''"
proof -
  let ?c = "''stream: 1 x 2'' @ newline @ ''Video stream: 640 x 480''"
  have a: "indexOf ?c ''Video stream:'' > - 1" by code_simp
  have i0: "index_of ''stream:'' ?c = Some 0" by code_simp
  have v: "takeWhile (\<lambda>c. c \<noteq> CHR 0x0A) (before_next_stream (drop (0 + 7) ?c)) = '' 1 x 2''"
    by code_simp
  from parsed_text_follows_first_stream [OF a] obtain i where
    "index_of ''stream:'' ?c = Some i"
    "ratio_of ?c = Inr (takeWhile (\<lambda>c. c \<noteq> CHR 0x0A) (before_next_stream (drop (i + 7) ?c)))"
    by blast
  with i0 v have "ratio_of ?c = Inr '' 1 x 2''" by simp
  with a show ?thesis by (rule conjI)
qed

section \<open>Decimal numerals and \<open>parseInt\<close>\<close>

lemma dec_digits_all:
  "\<forall>d \<in> set [0..<10]. digit_value (dec_digit d) = Some d \<and> is_dec (dec_digit d)"
  by code_simp

lemma dec_digit_value: "d < 10 \<Longrightarrow> digit_value (dec_digit d) = Some d"
  using dec_digits_all by simp

lemma dec_digit_is_dec: "d < 10 \<Longrightarrow> is_dec (dec_digit d)"
  using dec_digits_all by simp

lemma show_nat_digits: "list_all is_dec (show_nat n)"
proof (induction n rule: show_nat.induct)
  case (1 n)
  show ?case
  proof (cases "n < 10")
    case True
    then show ?thesis by (subst show_nat.simps) (simp add: dec_digit_is_dec)
  next
    case False
    have "is_dec (dec_digit (n mod 10))" by (rule dec_digit_is_dec) simp
    with False 1 show ?thesis by (subst show_nat.simps) simp
  qed
qed

lemma show_nat_nonempty: "show_nat n \<noteq> []"
  by (subst show_nat.simps) simp

lemma digits_value_snoc:
  "digits_value R (Z @ [c])
     = (case digit_value c of None \<Rightarrow> digits_value R Z | Some v \<Rightarrow> digits_value R Z * R + v)"
  by (simp add: digits_value_def split: option.splits)

lemma digits_value_show_nat: "digits_value 10 (show_nat n) = n"
proof (induction n rule: show_nat.induct)
  case (1 n)
  show ?case
  proof (cases "n < 10")
    case True
    then show ?thesis
      by (subst show_nat.simps) (simp add: digits_value_def dec_digit_value)
  next
    case False
    have "digit_value (dec_digit (n mod 10)) = Some (n mod 10)"
      by (rule dec_digit_value) simp
    with False 1 show ?thesis
      by (subst show_nat.simps) (simp add: digits_value_snoc)
  qed
qed

lemma dec_chars_all:
  "\<forall>c \<in> set ''0123456789''.
     is_radix_digit 10 c \<and> \<not> js_whitespace c \<and> c \<noteq> CHR ''x'' \<and> c \<noteq> CHR ''X''
     \<and> c \<noteq> CHR ''s'' \<and> c \<noteq> CHR 0x0A \<and> c \<noteq> CHR ''-'' \<and> c \<noteq> CHR ''+''"
  by code_simp

lemma is_dec_facts:
  assumes "is_dec c"
  shows "is_radix_digit 10 c" and "\<not> js_whitespace c" and "c \<noteq> CHR ''x''"
    and "c \<noteq> CHR ''X''" and "c \<noteq> CHR ''s''" and "c \<noteq> CHR 0x0A"
    and "c \<noteq> CHR ''-''" and "c \<noteq> CHR ''+''"
  using assms dec_chars_all unfolding is_dec_def by blast+

lemma whitespace_chars_all:
  "\<forall>c \<in> set [CHR 0x09, CHR 0x0A, CHR 0x0B, CHR 0x0C, CHR 0x0D, CHR 0x20, CHR 0xA0].
     \<not> is_radix_digit 10 c \<and> c \<noteq> CHR ''x'' \<and> c \<noteq> CHR ''X'' \<and> c \<noteq> CHR ''s''
     \<and> c \<noteq> CHR ''-'' \<and> c \<noteq> CHR ''+''"
  by code_simp

lemma whitespace_facts:
  assumes "js_whitespace c"
  shows "\<not> is_radix_digit 10 c" and "c \<noteq> CHR ''x''" and "c \<noteq> CHR ''X''"
    and "c \<noteq> CHR ''s''" and "c \<noteq> CHR ''-''" and "c \<noteq> CHR ''+''"
  using assms whitespace_chars_all unfolding js_whitespace_def by blast+

lemma minus_facts:
  "\<not> js_whitespace CHR ''-''" and "\<not> is_dec CHR ''-''"
  by (simp_all add: js_whitespace_def is_dec_def)

lemma is_numeral_char_facts:
  assumes "is_numeral_char c"
  shows "\<not> js_whitespace c" and "c \<noteq> CHR ''x''" and "c \<noteq> CHR ''s''" and "c \<noteq> CHR 0x0A"
proof -
  from assms have "is_dec c \<or> c = CHR ''-''" by (simp add: is_numeral_char_def)
  then show "\<not> js_whitespace c"
    using is_dec_facts(2) minus_facts(1) by blast
  from \<open>is_dec c \<or> c = CHR ''-''\<close> show "c \<noteq> CHR ''x''"
    using is_dec_facts(3) by (elim disjE) simp_all
  from \<open>is_dec c \<or> c = CHR ''-''\<close> show "c \<noteq> CHR ''s''"
    using is_dec_facts(5) by (elim disjE) simp_all
  from \<open>is_dec c \<or> c = CHR ''-''\<close> show "c \<noteq> CHR 0x0A"
    using is_dec_facts(6) by (elim disjE) simp_all
qed

lemma show_int_chars: "list_all is_numeral_char (show_int n)"
proof -
  have "list_all is_numeral_char (show_nat m)" for m
    using show_nat_digits [of m] by (simp add: list_all_iff is_numeral_char_def)
  then show ?thesis by (simp add: show_int_def is_numeral_char_def)
qed

lemma show_int_nonempty: "show_int n \<noteq> []"
  by (simp add: show_int_def show_nat_nonempty)

lemma parse_magnitude_digits:
  assumes d: "list_all is_dec d" "d \<noteq> []" and r: "r = [] \<or> js_whitespace (hd r)"
  shows "parse_magnitude (d @ r) = Some (digits_value 10 d)"
proof -
  from d obtain c d' where cd: "d = c # d'" by (cases d) auto
  with d have c: "is_dec c" and d': "list_all is_dec d'" by simp_all
  have second: "\<And>e es. d' @ r = e # es \<Longrightarrow> e \<noteq> CHR ''x'' \<and> e \<noteq> CHR ''X''"
  proof -
    fix e es assume eq: "d' @ r = e # es"
    show "e \<noteq> CHR ''x'' \<and> e \<noteq> CHR ''X''"
    proof (cases d')
      case Nil
      with eq have "r = e # es" by simp
      with r have "js_whitespace e" by simp
      then show ?thesis using whitespace_facts(2,3) by blast
    next
      case (Cons e' es')
      with eq have "e' = e" by simp
      with Cons d' have "is_dec e" by simp
      then show ?thesis using is_dec_facts(3,4) by blast
    qed
  qed
  have nohex: "\<not> prefix ''0x'' (d @ r)" "\<not> prefix ''0X'' (d @ r)"
  proof -
    show "\<not> prefix ''0x'' (d @ r)"
    proof (cases "d' @ r")
      case Nil
      with cd show ?thesis by simp
    next
      case (Cons e es)
      with second have "e \<noteq> CHR ''x''" by blast
      with cd Cons show ?thesis by simp
    qed
    show "\<not> prefix ''0X'' (d @ r)"
    proof (cases "d' @ r")
      case Nil
      with cd show ?thesis by simp
    next
      case (Cons e es)
      with second have "e \<noteq> CHR ''X''" by blast
      with cd Cons show ?thesis by simp
    qed
  qed
  have all: "\<forall>x\<in>set d. is_radix_digit 10 x"
    using d(1) is_dec_facts(1) by (simp add: list_all_iff)
  have stop: "takeWhile (is_radix_digit 10) r = []"
  proof (cases r)
    case Nil
    then show ?thesis by simp
  next
    case (Cons e es)
    with r have "js_whitespace e" by simp
    then have "\<not> is_radix_digit 10 e" by (rule whitespace_facts(1))
    with Cons show ?thesis by simp
  qed
  have tw: "takeWhile (is_radix_digit 10) (d @ r) = d"
    using all stop by (simp add: takeWhile_append)
  show ?thesis
    using d(2) by (simp add: parse_magnitude_def nohex tw Let_def)
qed

lemma parseInt_show_int:
  assumes "r = [] \<or> js_whitespace (hd r)"
  shows "parseInt (show_int n @ r) = Num n"
proof (cases "n < 0")
  case False
  let ?d = "show_nat (nat n)"
  obtain c d' where cd: "?d = c # d'" using show_nat_nonempty [of "nat n"] by (cases ?d) auto
  with show_nat_digits [of "nat n"] have "is_dec c" by simp
  then have c: "\<not> js_whitespace c" "c \<noteq> CHR ''-''" "c \<noteq> CHR ''+''"
    by (rule is_dec_facts)+
  have pm: "parse_magnitude (?d @ r) = Some (nat n)"
    using parse_magnitude_digits [OF show_nat_digits show_nat_nonempty assms, of "nat n"]
    by (simp only: digits_value_show_nat)
  have S: "dropWhile js_whitespace (?d @ r) = ?d @ r"
    unfolding cd using c(1) by simp
  have np: "\<not> prefix ''-'' (?d @ r)" "\<not> prefix ''+'' (?d @ r)"
    unfolding cd using c(2,3) by simp_all
  have "parseInt (?d @ r) = Num n"
    unfolding parseInt_def Let_def S using np False by (simp add: pm)
  with False show ?thesis by (simp add: show_int_def)
next
  case True
  let ?d = "show_nat (nat (- n))"
  have pm: "parse_magnitude (?d @ r) = Some (nat (- n))"
    using parse_magnitude_digits [OF show_nat_digits show_nat_nonempty assms, of "nat (- n)"]
    by (simp only: digits_value_show_nat)
  have S: "dropWhile js_whitespace (CHR ''-'' # ?d @ r) = CHR ''-'' # ?d @ r"
    using minus_facts(1) by simp
  have "parseInt (CHR ''-'' # ?d @ r) = Num n"
    unfolding parseInt_def Let_def S using True by (simp add: pm)
  with True show ?thesis by (simp add: show_int_def)
qed

lemma prefix_head_whitespace:
  assumes "prefix r' r" and "r = [] \<or> js_whitespace (hd r)"
  shows "r' = [] \<or> js_whitespace (hd r')"
proof (cases r')
  case Nil
  then show ?thesis by simp
next
  case (Cons e es)
  with assms(1) obtain t where "r = e # es @ t" by (auto simp: prefix_def)
  with assms(2) Cons show ?thesis by simp
qed

lemma rev_dropWhile_rev_prefix: "prefix (rev (dropWhile P (rev r))) r"
proof -
  have "rev (dropWhile P (rev r)) @ rev (takeWhile P (rev r))
          = rev (takeWhile P (rev r) @ dropWhile P (rev r))"
    by (simp only: rev_append)
  also have "\<dots> = rev (rev r)" by (simp only: takeWhile_dropWhile_id)
  also have "\<dots> = r" by (rule rev_rev_ident)
  finally have "r = rev (dropWhile P (rev r)) @ rev (takeWhile P (rev r))" by (rule sym)
  then show ?thesis by (rule prefixI)
qed

lemma trim_core:
  assumes u: "\<forall>c\<in>set u. js_whitespace c"
    and d: "d \<noteq> []" "\<forall>c\<in>set d. \<not> js_whitespace c"
  shows "\<exists>r'. trim (u @ d @ r) = d @ r' \<and> prefix r' r"
proof -
  from d obtain c d' where cd: "d = c # d'" by (cases d) auto
  with d have c: "\<not> js_whitespace c" by simp
  have front: "dropWhile js_whitespace (u @ d @ r) = d @ r"
    using u cd c by (simp add: dropWhile_append)
  from d have "rev d \<noteq> []" "\<not> js_whitespace (hd (rev d))"
    by (simp_all add: hd_rev)
  then have lastd: "dropWhile js_whitespace (rev d) = rev d"
    by (cases "rev d") simp_all
  show ?thesis
  proof (cases "\<forall>x\<in>set r. js_whitespace x")
    case True
    then have "dropWhile js_whitespace (rev r @ rev d) = rev d"
      using lastd by (simp add: dropWhile_append)
    then have "trim (u @ d @ r) = d @ []" by (simp add: trim_def front)
    moreover have "prefix [] r" by simp
    ultimately show ?thesis by blast
  next
    case False
    then have "\<not> (\<forall>x\<in>set (rev r). js_whitespace x)" by simp
    then have "dropWhile js_whitespace (rev r @ rev d) = dropWhile js_whitespace (rev r) @ rev d"
      by (simp only: dropWhile_append if_False)
    then have "trim (u @ d @ r) = d @ rev (dropWhile js_whitespace (rev r))"
      by (simp add: trim_def front)
    with rev_dropWhile_rev_prefix show ?thesis by blast
  qed
qed

lemma parseInt_trim_numeral:
  assumes "\<forall>c\<in>set u. js_whitespace c" and "r = [] \<or> js_whitespace (hd r)"
  shows "parseInt (trim (u @ show_int n @ r)) = Num n"
proof -
  have "\<forall>c\<in>set (show_int n). \<not> js_whitespace c"
    using show_int_chars [of n] is_numeral_char_facts(1) by (simp add: list_all_iff)
  with trim_core [OF assms(1) show_int_nonempty] obtain r' where
    r': "trim (u @ show_int n @ r) = show_int n @ r'" "prefix r' r" by blast
  from r'(2) assms(2) have "r' = [] \<or> js_whitespace (hd r')" by (rule prefix_head_whitespace)
  then have "parseInt (show_int n @ r') = Num n" by (rule parseInt_show_int)
  with r'(1) show ?thesis by simp
qed

section \<open>A well-formed announcement\<close>

lemma index_of_skip:
  assumes "sep = c0 # sep'" and "c0 \<notin> set A"
  shows "index_of sep (A @ rest) = map_option (\<lambda>i. length A + i) (index_of sep rest)"
  using assms(2)
proof (induction A)
  case Nil
  then show ?case by (simp add: option.map_ident)
next
  case (Cons e A)
  then have "e \<noteq> c0" and "c0 \<notin> set A" by auto
  with Cons.IH assms(1) show ?case by (simp add: option.map_comp comp_def)
qed

lemma first_piece_skip:
  assumes "sep = c0 # sep'" and "c0 \<notin> set A"
  shows "first_piece sep (A @ rest) = A @ first_piece sep rest"
  unfolding first_piece_def index_of_skip [OF assms]
  by (cases "index_of sep rest") simp_all

lemma first_piece_prefix: "prefix (first_piece sep s) s"
  by (cases "index_of sep s") (simp_all add: first_piece_def take_is_prefix)


lemma takeWhile_all_append:
  "\<forall>c\<in>set xs. P c \<Longrightarrow> takeWhile P (xs @ ys) = xs @ takeWhile P ys"
  by (induction xs) auto

lemma dropWhile_all_append:
  "\<forall>c\<in>set xs. P c \<Longrightarrow> dropWhile P (xs @ ys) = dropWhile P ys"
  by (induction xs) auto

lemma split_text:
  assumes A1: "\<forall>c\<in>set A1. c \<noteq> CHR ''x'' \<and> c \<noteq> CHR ''s'' \<and> c \<noteq> CHR 0x0A"
    and A2: "\<forall>c\<in>set A2. c \<noteq> CHR ''x'' \<and> c \<noteq> CHR ''s'' \<and> c \<noteq> CHR 0x0A"
  shows "\<exists>r3. prefix r3 rest
           \<and> (let ratio = takeWhile (\<lambda>c. c \<noteq> CHR 0x0A)
                             (before_next_stream (A1 @ ''x'' @ A2 @ rest))
              in CHR ''x'' \<in> set ratio
                 \<and> takeWhile (\<lambda>c. c \<noteq> CHR ''x'') ratio = A1
                 \<and> takeWhile (\<lambda>c. c \<noteq> CHR ''x'')
                      (drop 1 (dropWhile (\<lambda>c. c \<noteq> CHR ''x'') ratio)) = A2 @ r3)"
proof -
  let ?A = "A1 @ ''x'' @ A2"
  let ?r1 = "first_piece ''stream:'' rest"
  let ?r2 = "takeWhile (\<lambda>c. c \<noteq> CHR 0x0A) ?r1"
  let ?r3 = "takeWhile (\<lambda>c. c \<noteq> CHR ''x'') ?r2"
  have noS: "CHR ''s'' \<notin> set ?A" using A1 A2 by auto
  have noNL: "\<forall>c\<in>set ?A. c \<noteq> CHR 0x0A" using A1 A2 by auto
  have "before_next_stream (?A @ rest) = ?A @ ?r1"
    unfolding before_next_stream_first_piece
    by (rule first_piece_skip [OF _ noS]) simp
  then have b: "before_next_stream (A1 @ ''x'' @ A2 @ rest) = ?A @ ?r1" by simp
  have ratio: "takeWhile (\<lambda>c. c \<noteq> CHR 0x0A) (?A @ ?r1) = ?A @ ?r2"
    using noNL by (rule takeWhile_all_append)
  have A1x: "\<forall>c\<in>set A1. c \<noteq> CHR ''x''" and A2x: "\<forall>c\<in>set A2. c \<noteq> CHR ''x''"
    using A1 A2 by blast+
  have t1: "takeWhile (\<lambda>c. c \<noteq> CHR ''x'') (A1 @ CHR ''x'' # A2 @ ?r2) = A1"
    by (simp add: takeWhile_all_append [OF A1x])
  have d1: "dropWhile (\<lambda>c. c \<noteq> CHR ''x'') (A1 @ CHR ''x'' # A2 @ ?r2) = CHR ''x'' # A2 @ ?r2"
    by (simp add: dropWhile_all_append [OF A1x])
  have t2: "takeWhile (\<lambda>c. c \<noteq> CHR ''x'') (A2 @ ?r2) = A2 @ ?r3"
    by (rule takeWhile_all_append [OF A2x])
  have "prefix ?r3 ?r2" by (rule takeWhile_is_prefix)
  also have "prefix ?r2 ?r1" by (rule takeWhile_is_prefix)
  also have "prefix ?r1 rest" by (rule first_piece_prefix)
  finally have p: "prefix ?r3 rest" .
  show ?thesis
    unfolding b ratio Let_def using p t1 d1 t2 by (intro exI [of _ ?r3]) simp
qed


lemma contains_marker:
  "indexOf (pre @ ''Video stream:'' @ tail) ''Video stream:'' > - 1"
proof -
  have "prefix ''Video stream:'' (drop (length pre) (pre @ ''Video stream:'' @ tail))"
    by simp
  then obtain i where "index_of ''Video stream:'' (pre @ ''Video stream:'' @ tail) = Some i"
    using index_of_exists [of "''Video stream:''" "length pre" "pre @ ''Video stream:'' @ tail"]
    by auto
  then show ?thesis by (simp add: indexOf_def)
qed

text \<open>
  Where the announcement is read as meant. Take a chunk in which the first occurrence
  of \<open>stream:\<close> is the one inside the marker, and in which the marker is followed by
  white space, a decimal integer, white space, \<open>x\<close>, white space, a decimal integer, and
  then either nothing or white space (the end of the line); the white space before the
  second integer has no newline in it, and both integers are of magnitude at most
  \<open>2 ^ 53\<close>. On such a chunk the callback returns, and \<open>videoResolution\<close> is exactly
  those two integers.
\<close>

theorem announcement_sets_resolution:
  assumes chunk: "chunk = pre @ ''Video stream:'' @ ws1 @ show_int a @ ws2 @ ''x'' @ ws3
                          @ show_int b @ rest"
    and ws: "\<forall>c\<in>set (ws1 @ ws2 @ ws3). js_whitespace c \<and> c \<noteq> CHR 0x0A"
    and rest: "rest = [] \<or> js_whitespace (hd rest)"
    and first: "index_of ''stream:'' chunk = Some (length pre + 6)"
    and bound: "\<bar>a\<bar> \<le> 2 ^ 53" "\<bar>b\<bar> \<le> 2 ^ 53"
  shows "\<exists>s'. callback chunk s = Inr s'
           \<and> videoResolution s' = Some \<lparr>w = Num a, h = Num b\<rparr>"
proof -
  let ?A1 = "ws1 @ show_int a @ ws2"
  let ?A2 = "ws3 @ show_int b"
  let ?ratio = "takeWhile (\<lambda>c. c \<noteq> CHR 0x0A) (before_next_stream (?A1 @ ''x'' @ ?A2 @ rest))"
  have marker: "indexOf chunk ''Video stream:'' > - 1"
    unfolding chunk by (rule contains_marker)
  have "drop (length pre + 6 + 7) chunk = ?A1 @ ''x'' @ ?A2 @ rest"
    unfolding chunk by simp
  with ratio_of_Some [OF first] have ratio: "ratio_of chunk = Inr ?ratio" by simp
  have plain: "c \<noteq> CHR ''x'' \<and> c \<noteq> CHR ''s'' \<and> c \<noteq> CHR 0x0A"
    if "c \<in> set (ws1 @ ws2 @ ws3) \<or> c \<in> set (show_int a) \<or> c \<in> set (show_int b)" for c
  proof -
    from that consider "c \<in> set (ws1 @ ws2 @ ws3)" | "c \<in> set (show_int a)" | "c \<in> set (show_int b)"
      by blast
    then show ?thesis
    proof cases
      case 1
      with ws have "js_whitespace c" "c \<noteq> CHR 0x0A" by blast+
      then show ?thesis using whitespace_facts(2,4) by blast
    next
      case 2
      with show_int_chars [of a] have "is_numeral_char c" by (simp add: list_all_iff)
      then show ?thesis using is_numeral_char_facts(2,3,4) by blast
    next
      case 3
      with show_int_chars [of b] have "is_numeral_char c" by (simp add: list_all_iff)
      then show ?thesis using is_numeral_char_facts(2,3,4) by blast
    qed
  qed
  have A1: "\<forall>c\<in>set ?A1. c \<noteq> CHR ''x'' \<and> c \<noteq> CHR ''s'' \<and> c \<noteq> CHR 0x0A"
    using plain by auto
  have A2: "\<forall>c\<in>set ?A2. c \<noteq> CHR ''x'' \<and> c \<noteq> CHR ''s'' \<and> c \<noteq> CHR 0x0A"
    using plain by auto
  from split_text [OF A1 A2, of rest] obtain r3 where
    r3: "prefix r3 rest" and x: "CHR ''x'' \<in> set ?ratio"
    and p0: "takeWhile (\<lambda>c. c \<noteq> CHR ''x'') ?ratio = ?A1"
    and p1: "takeWhile (\<lambda>c. c \<noteq> CHR ''x'')
               (drop 1 (dropWhile (\<lambda>c. c \<noteq> CHR ''x'') ?ratio)) = ?A2 @ r3"
    unfolding Let_def by blast
  have ws1: "\<forall>c\<in>set ws1. js_whitespace c" and ws3: "\<forall>c\<in>set ws3. js_whitespace c"
    using ws by simp_all
  have ws2: "ws2 = [] \<or> js_whitespace (hd ws2)"
  proof (cases ws2)
    case Nil
    then show ?thesis by simp
  next
    case (Cons e es)
    then have "e \<in> set (ws1 @ ws2 @ ws3)" by simp
    with ws have "js_whitespace e" by blast
    with Cons show ?thesis by simp
  qed
  have wv: "parseInt (trim ?A1) = Num a"
    using ws1 ws2 by (rule parseInt_trim_numeral)
  from r3 rest have "r3 = [] \<or> js_whitespace (hd r3)" by (rule prefix_head_whitespace)
  with ws3 have "parseInt (trim (ws3 @ show_int b @ r3)) = Num b"
    by (rule parseInt_trim_numeral)
  then have hv: "parseInt (trim (?A2 @ r3)) = Num b" by simp
  have "resolution_of_ratio ?ratio = Inr \<lparr>w = Num a, h = Num b\<rparr>"
    unfolding resolution_of_ratio_with_x [OF x] p0 p1 wv hv ..
  with marker ratio have "callback chunk s
      = Inr (append_buffer chunk
               (s\<lparr>videoResolution := Some \<lparr>w = Num a, h = Num b\<rparr>,
                  opendatacamResolution := Some \<lparr>w = Num a, h = Num b\<rparr>\<rparr>))"
    by (simp only: callback_def if_True sum.case)
  then show ?thesis by simp
qed


text \<open>
  Claim C3, at an input where the code departs from it. The claim: a chunk that
  contains a well-formed line \<open>Video stream: <int> x <int>\<close> sets \<open>videoResolution\<close> to
  those two integers. This chunk contains the line \<open>Video stream: 640 x 480\<close>, which
  line 55 finds, after a line that has \<open>stream:\<close> in it; line 56 splits on \<open>stream:\<close>
  and not on the marker, and the callback sets \<open>videoResolution\<close> to \<open>{w: 1, h: 2}\<close>,
  read from the earlier line.
\<close>

theorem earlier_stream_is_parsed:
  "callback (''stream: 1 x 2'' @ newline @ ''Video stream: 640 x 480'' @ newline)
     (init_state (Some ''production''))
   = Inr \<lparr>videoResolution = Some \<lparr>w = Num 1, h = Num 2\<rparr>,
          opendatacamResolution = Some \<lparr>w = Num 1, h = Num 2\<rparr>,
          stdoutBuffer = ''stream: 1 x 2'' @ newline @ ''Video stream: 640 x 480'' @ newline\<rparr>"
  by code_simp

theorem announcement_sets_resolution_witness:
  "\<exists>s'. callback (''xx Video stream: 640 x 480'' @ newline @ ''foo'')
           (init_state (Some ''production'')) = Inr s'
        \<and> videoResolution s' = Some \<lparr>w = Num 640, h = Num 480\<rparr>"
proof -
  have chunk: "''xx Video stream: 640 x 480'' @ newline @ ''foo''
                 = ''xx '' @ ''Video stream:'' @ '' '' @ show_int 640 @ '' '' @ ''x'' @ '' ''
                   @ show_int 480 @ (newline @ ''foo'')"
    by code_simp
  have ws: "\<forall>c\<in>set ('' '' @ '' '' @ '' ''). js_whitespace c \<and> c \<noteq> CHR 0x0A"
    by code_simp
  have rest: "newline @ ''foo'' = [] \<or> js_whitespace (hd (newline @ ''foo''))"
    by code_simp
  have first: "index_of ''stream:'' (''xx Video stream: 640 x 480'' @ newline @ ''foo'')
                 = Some (length ''xx '' + 6)"
    by code_simp
  have b: "\<bar>640 :: int\<bar> \<le> 2 ^ 53" "\<bar>480 :: int\<bar> \<le> 2 ^ 53" by simp_all
  from announcement_sets_resolution [OF chunk ws rest first b] show ?thesis .
qed

end
